theory Spec2Isabelle
  imports Main
begin

section \<open>Strings as the program reads them\<close>

text \<open>
  The program is \<^verbatim>\<open>tflegal.py\<close>. Its strings are modelled as \<^typ>\<open>string\<close>, one
  \<^typ>\<open>char\<close> per code point, for the code points 0 to 255. The character classes
  below are those of Python's \<^verbatim>\<open>str.isspace\<close> (which \<^verbatim>\<open>str.strip()\<close>,
  \<^verbatim>\<open>str.split()\<close> and the pattern \<^verbatim>\<open>\s\<close> use) restricted to that range.
\<close>

definition is_space :: "char \<Rightarrow> bool" where
  "is_space c = (c \<in> set [CHR 0x09, CHR 0x0A, CHR 0x0B, CHR 0x0C, CHR 0x0D,
                          CHR 0x1C, CHR 0x1D, CHR 0x1E, CHR 0x1F, CHR 0x20,
                          CHR 0x85, CHR 0xA0])"

definition non_space :: "char \<Rightarrow> bool" where
  "non_space c = (\<not> is_space c)"

definition strip :: "string \<Rightarrow> string" where
  \<comment> \<open>\<^verbatim>\<open>s.strip()\<close>\<close>
  "strip s = rev (dropWhile is_space (rev (dropWhile is_space s)))"

section \<open>Line predicates and the title-block scanner\<close>

definition is_line_of_equals :: "string \<Rightarrow> bool" where
  \<comment> \<open>\<^verbatim>\<open>s = line_str.strip(); len(s) >= 5 and re.match(r'^[=]+$', s)\<close>\<close>
  "is_line_of_equals line_str =
     (let s = strip line_str in
      if length s < 5 then False else list_all (\<lambda>c. c = CHR ''='') s)"

definition is_line_of_dashes :: "string \<Rightarrow> bool" where
  \<comment> \<open>\<^verbatim>\<open>s = line_str.strip(); len(s) >= 5 and re.match(r'^-+$', s)\<close>\<close>
  "is_line_of_dashes line_str =
     (let s = strip line_str in
      if length s < 5 then False else list_all (\<lambda>c. c = CHR ''-'') s)"

text \<open>
  \<^verbatim>\<open>detect_legal_title_blocks\<close> is a generator over a list of lines; the model returns
  the list of what it yields, in order. The three kinds of item are the three tags of
  the source: \<^verbatim>\<open>"legal_page_title_block"\<close>, \<^verbatim>\<open>"delimiter_line"\<close>,
  \<^verbatim>\<open>"normal_line"\<close>.
\<close>

datatype block =
    LegalPageTitleBlock "string list"
  | DelimiterLine string
  | NormalLine string

text \<open>
  The inner \<^verbatim>\<open>while j < n\<close> loop that looks for the closing rule: it returns
  \<^verbatim>\<open>(found_bottom, j, inner_lines)\<close> as they stand when the loop is left.
\<close>

function find_bottom :: "string list \<Rightarrow> nat \<Rightarrow> string list \<Rightarrow> bool \<times> nat \<times> string list" where
  "find_bottom lines j inner_lines =
     (if j < length lines then
        (if is_line_of_equals (lines ! j) then (True, j + 1, inner_lines)
         else find_bottom lines (j + 1) (inner_lines @ [lines ! j]))
      else (False, j, inner_lines))"
  by pat_completeness auto
termination
  by (relation "measure (\<lambda>(lines, j, inner_lines). length lines - j)") auto

declare find_bottom.simps [simp del]

lemma find_bottom_bounds:
  "find_bottom lines j inner = (True, j', inner') \<Longrightarrow> j < j' \<and> j' \<le> length lines"
proof (induction lines j inner rule: find_bottom.induct)
  case (1 lines j inner_lines)
  show ?case
  proof (cases "j < length lines")
    case False
    with "1.prems" show ?thesis by (simp add: find_bottom.simps [of lines j])
  next
    case inrange: True
    show ?thesis
    proof (cases "is_line_of_equals (lines ! j)")
      case True
      with inrange "1.prems" show ?thesis by (simp add: find_bottom.simps [of lines j])
    next
      case False
      with inrange "1.prems"
      have "find_bottom lines (j + 1) (inner_lines @ [lines ! j]) = (True, j', inner')"
        by (simp add: find_bottom.simps [of lines j])
      with "1.IH" inrange False show ?thesis by fastforce
    qed
  qed
qed

text \<open>The outer \<^verbatim>\<open>while i < n\<close> loop, started at index \<open>i\<close>.\<close>

function detect_from :: "string list \<Rightarrow> nat \<Rightarrow> block list" where
  "detect_from lines i =
     (if i < length lines then
        (if is_line_of_equals (lines ! i) then
           (let r = find_bottom lines (i + 1) [] in
            if fst r then LegalPageTitleBlock (snd (snd r)) # detect_from lines (fst (snd r))
            else DelimiterLine (lines ! i) # detect_from lines (i + 1))
         else if is_line_of_dashes (lines ! i) then
           DelimiterLine (lines ! i) # detect_from lines (i + 1)
         else NormalLine (lines ! i) # detect_from lines (i + 1))
      else [])"
  by pat_completeness auto
termination
proof (relation "measure (\<lambda>(lines, i). length lines - i)")
  show "wf (measure (\<lambda>(lines, i). length lines - i))" by simp
next
  fix lines :: "string list" and i x
  assume a: "i < length lines" "x = find_bottom lines (i + 1) []" "fst x"
  obtain j' inner' where x: "x = (True, j', inner')"
    using a(3) by (cases x) auto
  from find_bottom_bounds [of lines "i + 1" "[]" j' inner'] a(2) x
  have "i + 1 < j' \<and> j' \<le> length lines" by simp
  then have "length lines - j' < length lines - i" by arith
  with x show "((lines, fst (snd x)), lines, i) \<in> measure (\<lambda>(lines, i). length lines - i)"
    by simp
qed auto

declare detect_from.simps [simp del]

definition detect_legal_title_blocks :: "string list \<Rightarrow> block list" where
  "detect_legal_title_blocks lines = detect_from lines 0"

text \<open>What the scanner makes of a line that is not a rule of equals signs.\<close>

definition plain_item :: "string \<Rightarrow> block" where
  "plain_item l = (if is_line_of_dashes l then DelimiterLine l else NormalLine l)"

section \<open>The text wrapper\<close>

text \<open>
  \<^verbatim>\<open>paragraph.split()\<close>: the maximal runs of non-whitespace characters, in order.
  \<open>cur\<close> is the word being read.
\<close>

fun words_acc :: "string \<Rightarrow> string \<Rightarrow> string list" where
  "words_acc cur [] = (if cur = [] then [] else [cur])"
| "words_acc cur (c # cs) =
     (if is_space c then (if cur = [] then words_acc [] cs else cur # words_acc [] cs)
      else words_acc (cur @ [c]) cs)"

definition split_ws :: "string \<Rightarrow> string list" where
  "split_ws s = words_acc [] s"

text \<open>\<^verbatim>\<open>s.split(sep)\<close> for a one-character separator: never empty, keeps empty pieces.
  \<open>cur\<close> is the piece being read.\<close>

fun split_acc :: "char \<Rightarrow> string \<Rightarrow> string \<Rightarrow> string list" where
  "split_acc sep cur [] = [cur]"
| "split_acc sep cur (c # cs) =
     (if c = sep then cur # split_acc sep [] cs else split_acc sep (cur @ [c]) cs)"

definition split_on :: "char \<Rightarrow> string \<Rightarrow> string list" where
  "split_on sep s = split_acc sep [] s"

text \<open>
  The body of \<^verbatim>\<open>for word in words\<close>. The state is \<^verbatim>\<open>(all_lines, current_line)\<close>;
  \<open>stringWidth\<close> is the canvas's width measure, a parameter of the model.
  (\<^verbatim>\<open>pdf_canvas.setFont\<close> only selects the font of the canvas and is left out.)
\<close>

definition wrap_word ::
  "(string \<Rightarrow> string \<Rightarrow> nat \<Rightarrow> 'w::ord) \<Rightarrow> string \<Rightarrow> nat \<Rightarrow> 'w \<Rightarrow>
   (string \<times> bool) list \<times> string \<Rightarrow> string \<Rightarrow> (string \<times> bool) list \<times> string" where
  "wrap_word stringWidth font_name font_size max_width st word =
     (let all_lines = fst st; current_line = snd st;
          test_line = (if current_line = [] then word else current_line @ '' '' @ word)
      in if stringWidth test_line font_name font_size \<le> max_width then (all_lines, test_line)
         else (all_lines @ [(current_line, True)], word))"

text \<open>After the words: \<^verbatim>\<open>if current_line: all_lines.append((current_line, False))\<close>.\<close>

definition flush_line :: "(string \<times> bool) list \<times> string \<Rightarrow> (string \<times> bool) list" where
  "flush_line st = (if snd st \<noteq> [] then fst st @ [(snd st, False)] else fst st)"

text \<open>The body of \<^verbatim>\<open>for paragraph in paragraphs\<close>: it extends \<^verbatim>\<open>all_lines\<close>.\<close>

definition wrap_paragraph ::
  "(string \<Rightarrow> string \<Rightarrow> nat \<Rightarrow> 'w::ord) \<Rightarrow> string \<Rightarrow> nat \<Rightarrow> 'w \<Rightarrow>
   (string \<times> bool) list \<Rightarrow> string \<Rightarrow> (string \<times> bool) list" where
  "wrap_paragraph stringWidth font_name font_size max_width all_lines paragraph =
     (let words = split_ws paragraph in
      if words = [] then all_lines @ [([], False)]
      else
        flush_line (foldl (wrap_word stringWidth font_name font_size max_width) (all_lines, []) words))"

definition wrap_text_to_lines ::
  "(string \<Rightarrow> string \<Rightarrow> nat \<Rightarrow> 'w::ord) \<Rightarrow> string \<Rightarrow> string \<Rightarrow> nat \<Rightarrow> 'w \<Rightarrow> (string \<times> bool) list" where
  "wrap_text_to_lines stringWidth full_text font_name font_size max_width =
     foldl (wrap_paragraph stringWidth font_name font_size max_width) [] (split_on CHR 0x0A full_text)"

section \<open>The paginator\<close>

text \<open>
  A segment is one of the three shapes of dictionary that \<^verbatim>\<open>prepare_main_pdf_segments\<close>
  builds: a line of text with its style, a delimiter (which carries a font and both
  heading flags \<^verbatim>\<open>False\<close>), or a title block
  (\<^verbatim>\<open>"page_always_new": True\<close> with its lines).
\<close>

datatype segment =
    TextSegment string string nat string bool bool
  | DelimiterSegment string nat
  | TitleBlockSegment "string list"

fun page_always_new :: "segment \<Rightarrow> bool" where
  "page_always_new (TitleBlockSegment block_lines) = True"
| "page_always_new seg = False"

fun delimiter_line :: "segment \<Rightarrow> bool" where
  "delimiter_line (DelimiterSegment fn fs) = True"
| "delimiter_line seg = False"

fun seg_lines :: "segment \<Rightarrow> string list" where
  "seg_lines (TitleBlockSegment block_lines) = block_lines"
| "seg_lines seg = []"

fun seg_text :: "segment \<Rightarrow> string" where
  "seg_text (TextSegment t fn fs al h sh) = t"
| "seg_text seg = []"

fun is_heading :: "segment \<Rightarrow> bool" where
  "is_heading (TextSegment t fn fs al h sh) = h"
| "is_heading seg = False"

fun is_subheading :: "segment \<Rightarrow> bool" where
  "is_subheading (TextSegment t fn fs al h sh) = sh"
| "is_subheading seg = False"

text \<open>
  What a page shows: a numbered line (the number printed in both gutters, and the
  segment drawn on that line) or a title block drawn by
  \<^verbatim>\<open>draw_legal_page_title_block\<close>. A heading coordinate is the tuple
  \<^verbatim>\<open>(text, page_number, line_number, is_subheading)\<close>.
\<close>

datatype placed =
    PlacedLine nat segment
  | PlacedTitleBlock "string list"

type_synonym heading_position = "string \<times> nat \<times> nat \<times> bool"

record page =
  page_no :: nat
  page_total :: nat
  content :: "placed list"

text \<open>
  The \<^verbatim>\<open>while\<close> loop of \<^verbatim>\<open>draw_page_of_segments\<close>. It returns
  \<^verbatim>\<open>end_index\<close>, the heading positions and what was drawn, as they are when the
  function returns (by the \<^verbatim>\<open>return\<close> inside the loop, the \<^verbatim>\<open>break\<close>, or the
  loop condition).
\<close>

function draw_loop ::
  "segment list \<Rightarrow> nat \<Rightarrow> nat \<Rightarrow> nat \<Rightarrow> nat \<Rightarrow> heading_position list \<Rightarrow> placed list \<Rightarrow>
   nat \<times> heading_position list \<times> placed list" where
  "draw_loop segments max_lines_per_page page_number end_index current_line_count
     heading_positions drawn =
     (if end_index < length segments \<and> current_line_count < max_lines_per_page then
        (let seg = segments ! end_index in
         if page_always_new seg then
           (if current_line_count > 0 then (end_index, heading_positions, drawn)
            else (end_index + 1, heading_positions, drawn @ [PlacedTitleBlock (seg_lines seg)]))
         else
           (let line_number = end_index + 1 in
            draw_loop segments max_lines_per_page page_number (end_index + 1)
              (current_line_count + 1)
              (if is_heading seg \<or> is_subheading seg
               then heading_positions @ [(seg_text seg, page_number, line_number, is_subheading seg)]
               else heading_positions)
              (drawn @ [PlacedLine line_number seg])))
      else (end_index, heading_positions, drawn))"
  by pat_completeness auto
termination
  by (relation "measure (\<lambda>(segments, m, p, end_index, c, h, d). length segments - end_index)") auto

declare draw_loop.simps [simp del]

definition draw_page_of_segments ::
  "segment list \<Rightarrow> nat \<Rightarrow> nat \<Rightarrow> nat \<Rightarrow> nat \<Rightarrow> heading_position list \<Rightarrow>
   nat \<times> heading_position list \<times> page" where
  "draw_page_of_segments segments start_index max_lines_per_page page_number total_pages
     heading_positions =
     (let r = draw_loop segments max_lines_per_page page_number start_index 0 heading_positions []
      in (fst r, fst (snd r),
          \<lparr>page_no = page_number, page_total = total_pages, content = snd (snd r)\<rparr>))"

text \<open>
  The inner loop of the estimation pass in \<^verbatim>\<open>generate_legal_document\<close>; it returns
  \<^verbatim>\<open>(local_i, lines_used)\<close>.
\<close>

function count_lines :: "segment list \<Rightarrow> nat \<Rightarrow> nat \<Rightarrow> nat \<Rightarrow> nat \<times> nat" where
  "count_lines segments max_lines_per_page local_i lines_used =
     (if local_i < length segments \<and> lines_used < max_lines_per_page then
        (if page_always_new (segments ! local_i) then (local_i, lines_used)
         else count_lines segments max_lines_per_page (local_i + 1) (lines_used + 1))
      else (local_i, lines_used))"
  by pat_completeness auto
termination
  by (relation "measure (\<lambda>(segments, m, local_i, u). length segments - local_i)") auto

declare count_lines.simps [simp del]

text \<open>
  The two outer loops of \<^verbatim>\<open>generate_legal_document\<close>. Neither has a bound of its own
  (with \<^verbatim>\<open>max_lines_per_page = 0\<close> the index never advances), so each is a partial
  function: \<open>None\<close> is the loop that never ends.
\<close>

partial_function (option) estimate_pages ::
  "segment list \<Rightarrow> nat \<Rightarrow> nat \<Rightarrow> nat \<Rightarrow> nat option" where
  "estimate_pages segments max_lines_per_page current_index text_pages =
     (if current_index < length segments then
        (if page_always_new (segments ! current_index) then
           estimate_pages segments max_lines_per_page (current_index + 1) (text_pages + 1)
         else
           estimate_pages segments max_lines_per_page
             (fst (count_lines segments max_lines_per_page current_index 0)) (text_pages + 1))
      else Some text_pages)"

partial_function (option) place_pages ::
  "segment list \<Rightarrow> nat \<Rightarrow> nat \<Rightarrow> nat \<Rightarrow> nat \<Rightarrow> heading_position list \<Rightarrow> page list \<Rightarrow>
   (nat \<times> heading_position list \<times> page list) option" where
  "place_pages segments max_lines_per_page total_pages page_number current_index
     heading_positions pages =
     (if current_index < length segments then
        (let r = draw_page_of_segments segments current_index max_lines_per_page page_number
                   total_pages heading_positions
         in place_pages segments max_lines_per_page total_pages (page_number + 1) (fst r)
              (fst (snd r)) (pages @ [snd (snd r)]))
      else Some (page_number, heading_positions, pages))"

declare estimate_pages.simps [code]

declare place_pages.simps [code]

text \<open>
  The pagination of \<^verbatim>\<open>generate_legal_document\<close>: the estimate, then the placement
  with \<^verbatim>\<open>page_number = 1\<close>. The locals \<^verbatim>\<open>segments\<close> and
  \<^verbatim>\<open>max_lines_per_page\<close> (36 for the letter page of the source) are parameters here.
  The result is \<^verbatim>\<open>text_pages\<close>, the text pages drawn, and the heading positions.
\<close>

definition generate_legal_document ::
  "segment list \<Rightarrow> nat \<Rightarrow> (string \<times> string) list \<Rightarrow> heading_position list \<Rightarrow>
   (nat \<times> page list \<times> heading_position list) option" where
  "generate_legal_document segments max_lines_per_page exhibits heading_positions =
     (case estimate_pages segments max_lines_per_page 0 0 of
        None \<Rightarrow> None
      | Some text_pages \<Rightarrow>
          (let exhibit_pages_est = (if exhibits \<noteq> [] then length exhibits else 0);
               total_pages_est = text_pages + exhibit_pages_est * 2
           in case place_pages segments max_lines_per_page total_pages_est 1 0
                     heading_positions [] of
                None \<Rightarrow> None
              | Some r \<Rightarrow> Some (text_pages, snd (snd r), fst (snd r))))"

text \<open>
  For the statements about pages: the heading coordinates that a placed item stands for
  on a page, and the item that stands for segment \<open>j\<close> (the title block whole, or the
  line with gutter number \<open>j + 1\<close>).
\<close>

fun headings_of_placed :: "nat \<Rightarrow> placed \<Rightarrow> heading_position list" where
  "headings_of_placed page_number (PlacedLine line_number seg) =
     (if is_heading seg \<or> is_subheading seg
      then [(seg_text seg, page_number, line_number, is_subheading seg)] else [])"
| "headings_of_placed page_number (PlacedTitleBlock block_lines) = []"

definition page_headings :: "page \<Rightarrow> heading_position list" where
  "page_headings p = concat (map (headings_of_placed (page_no p)) (content p))"

definition place_segment :: "segment list \<Rightarrow> nat \<Rightarrow> placed" where
  "place_segment segments j =
     (if page_always_new (segments ! j) then PlacedTitleBlock (seg_lines (segments ! j))
      else PlacedLine (j + 1) (segments ! j))"

text \<open>The index at which the next page starts, as the estimation pass computes it.\<close>

definition next_index :: "segment list \<Rightarrow> nat \<Rightarrow> nat \<Rightarrow> nat" where
  "next_index segs m i =
     (if page_always_new (segs ! i) then i + 1 else fst (count_lines segs m i 0))"

section \<open>Patterns\<close>

text \<open>
  The regular expressions of the source, written out as matchers. Under
  \<^verbatim>\<open>re.IGNORECASE\<close> a letter of a pattern matches its two ASCII cases (and nothing else
  among the code points 0 to 255); \<^verbatim>\<open>\d\<close> matches the ten ASCII digits there, and
  \<^verbatim>\<open>\w\<close> the characters for which \<^verbatim>\<open>str.isalnum\<close> holds, and the underscore.
\<close>

definition ascii_upper :: "char \<Rightarrow> char" where
  "ascii_upper c =
     (case map_of (zip ''abcdefghijklmnopqrstuvwxyz'' ''ABCDEFGHIJKLMNOPQRSTUVWXYZ'') c of
        Some u \<Rightarrow> u
      | None \<Rightarrow> c)"

definition is_digit :: "char \<Rightarrow> bool" where
  "is_digit c = (c \<in> set ''0123456789'')"

definition is_word_char :: "char \<Rightarrow> bool" where
  "is_word_char c =
     (let n = (of_char c :: nat) in
      is_digit c \<or> ascii_upper c \<in> set ''ABCDEFGHIJKLMNOPQRSTUVWXYZ'' \<or> c = CHR ''_''
      \<or> n \<in> set [0xAA, 0xB2, 0xB3, 0xB5, 0xB9, 0xBA, 0xBC, 0xBD, 0xBE]
      \<or> (0xC0 \<le> n \<and> n \<le> 0xD6) \<or> (0xD8 \<le> n \<and> n \<le> 0xF6) \<or> 0xF8 \<le> n)"

text \<open>A literal of capital letters and spaces matched at the start of \<open>s\<close>, ignoring case;
  the result is what follows it.\<close>

definition ci_prefix :: "string \<Rightarrow> string \<Rightarrow> string option" where
  "ci_prefix lit s =
     (if map ascii_upper (take (length lit) s) = lit then Some (drop (length lit) s) else None)"

text \<open>
  \<^verbatim>\<open>EXHIBIT\s+\d+:\<close> matched at the start of \<open>s\<close>. The three runs are over disjoint
  character classes, so the greedy match is the only candidate.
\<close>

definition exhibit_ref_at :: "string \<Rightarrow> bool" where
  "exhibit_ref_at s =
     (case ci_prefix ''EXHIBIT'' s of
        None \<Rightarrow> False
      | Some r \<Rightarrow>
          (let r1 = dropWhile is_space r; r2 = dropWhile is_digit r1
           in takeWhile is_space r \<noteq> [] \<and> takeWhile is_digit r1 \<noteq> [] \<and> take 1 r2 = '':''))"

text \<open>
  \<^verbatim>\<open>re.search(r'\bEXHIBIT\s+\d+:', line_str, re.IGNORECASE)\<close>: a match may start at any
  position that is a word boundary; as the pattern starts with a letter, that is the
  start of the string or a position after a character that is not a word character.
\<close>

fun exhibit_search :: "bool \<Rightarrow> string \<Rightarrow> bool" where
  "exhibit_search prev_word [] = False"
| "exhibit_search prev_word (c # cs) =
     (if \<not> prev_word \<and> exhibit_ref_at (c # cs) then True
      else exhibit_search (is_word_char c) cs)"

definition is_exhibit_reference :: "string \<Rightarrow> bool" where
  "is_exhibit_reference line_str = exhibit_search False line_str"

definition is_line_all_caps :: "string \<Rightarrow> bool" where
  \<comment> \<open>\<^verbatim>\<open>re.search(r'[A-Z]', s)\<close> and not \<^verbatim>\<open>re.search(r'[a-z]', s)\<close>\<close>
  "is_line_all_caps line_str =
     (if \<not> list_ex (\<lambda>c. c \<in> set ''ABCDEFGHIJKLMNOPQRSTUVWXYZ'') line_str then False
      else \<not> list_ex (\<lambda>c. c \<in> set ''abcdefghijklmnopqrstuvwxyz'') line_str)"

section \<open>The table-of-contents filter\<close>

text \<open>\<^verbatim>\<open>re.match(r'(?i)^SPECIAL EXHIBITS$', s)\<close>; \<^verbatim>\<open>$\<close> also matches before a final
  line feed.\<close>

definition special_exhibits_match :: "string \<Rightarrow> bool" where
  "special_exhibits_match s =
     (map ascii_upper s = ''SPECIAL EXHIBITS''
      \<or> map ascii_upper s = ''SPECIAL EXHIBITS'' @ [CHR 0x0A])"

text \<open>The loop body of \<^verbatim>\<open>filter_headings_for_toc\<close>; the state is
  \<^verbatim>\<open>(new_positions, found_exhibit, in_special_section)\<close>.\<close>

definition toc_step ::
  "heading_position list \<times> bool \<times> bool \<Rightarrow> heading_position \<Rightarrow> heading_position list \<times> bool \<times> bool" where
  "toc_step st h =
     (let new_positions = fst st; found_exhibit = fst (snd st);
          in_special_section = snd (snd st); heading_text = fst h
      in if in_special_section then (new_positions @ [h], found_exhibit, in_special_section)
         else if found_exhibit then
           (if special_exhibits_match (strip heading_text)
            then (new_positions @ [h], found_exhibit, True)
            else (new_positions, found_exhibit, in_special_section))
         else (new_positions @ [h],
               (if is_exhibit_reference heading_text then True else found_exhibit),
               in_special_section))"

definition filter_headings_for_toc :: "heading_position list \<Rightarrow> heading_position list" where
  "filter_headings_for_toc heading_positions =
     fst (foldl toc_step ([], False, False) heading_positions)"

text \<open>
  The filtering rule in the words of the specification, to compare with the loop above:
  keep the headings before the first exhibit reference and that reference; of what
  follows, drop the headings before the first one whose trimmed text equals
  \<^verbatim>\<open>SPECIAL EXHIBITS\<close> up to case, and keep the rest.
\<close>

definition ci_equal :: "string \<Rightarrow> string \<Rightarrow> bool" where
  "ci_equal a b = (map ascii_upper a = map ascii_upper b)"

definition filter_for_toc_spec :: "heading_position list \<Rightarrow> heading_position list" where
  "filter_for_toc_spec hs =
     takeWhile (\<lambda>h. \<not> is_exhibit_reference (fst h)) hs @
     (case dropWhile (\<lambda>h. \<not> is_exhibit_reference (fst h)) hs of
        [] \<Rightarrow> []
      | e # rest \<Rightarrow> e # dropWhile (\<lambda>h. \<not> ci_equal (strip (fst h)) ''SPECIAL EXHIBITS'') rest)"

section \<open>The structural parser\<close>

text \<open>
  \<^verbatim>\<open>str.splitlines()\<close>: a line ends at a line feed, a carriage return (with the line
  feed that follows it, if any), or one of \<^verbatim>\<open>\x0b \x0c \x1c \x1d \x1e \x85\<close>; a
  last line without terminator counts when it is not empty.
\<close>

definition is_line_break :: "char \<Rightarrow> bool" where
  "is_line_break c = (c \<in> set [CHR 0x0A, CHR 0x0B, CHR 0x0C, CHR 0x1C, CHR 0x1D, CHR 0x1E, CHR 0x85])"

fun splitlines_acc :: "string \<Rightarrow> string \<Rightarrow> string list" where
  "splitlines_acc cur [] = (if cur = [] then [] else [cur])"
| "splitlines_acc cur (c # cs) =
     (if c = CHR 0x0D then
        (case cs of
           [] \<Rightarrow> [cur]
         | d # ds \<Rightarrow> if d = CHR 0x0A then cur # splitlines_acc [] ds
                     else cur # splitlines_acc [] (d # ds))
      else if is_line_break c then cur # splitlines_acc [] cs
      else splitlines_acc (cur @ [c]) cs)"

definition splitlines :: "string \<Rightarrow> string list" where
  "splitlines s = splitlines_acc [] s"

fun join :: "string \<Rightarrow> string list \<Rightarrow> string" where
  \<comment> \<open>\<^verbatim>\<open>sep.join(xs)\<close>\<close>
  "join sep [] = []"
| "join sep [x] = x"
| "join sep (x # y # ys) = x @ sep @ join sep (y # ys)"

definition rstrip_char :: "char \<Rightarrow> string \<Rightarrow> string" where
  \<comment> \<open>\<^verbatim>\<open>s.rstrip(c)\<close> for a single character\<close>
  "rstrip_char c s = rev (dropWhile (\<lambda>x. x = c) (rev s))"

text \<open>
  One \<^verbatim>\<open>[IVXLCDM]+\.|[0-9]+\.\<close> at the start of \<open>s\<close>: the component and the rest.
  A run of numeral letters or of digits can only be taken whole, since the character
  after a shorter run is not a dot.
\<close>

definition is_roman :: "char \<Rightarrow> bool" where
  "is_roman c = (ascii_upper c \<in> set ''IVXLCDM'')"

definition heading_component :: "string \<Rightarrow> (string \<times> string) option" where
  "heading_component s =
     (let run = (if list_ex is_roman (take 1 s) then takeWhile is_roman s else takeWhile is_digit s);
          rest = drop (length run) s
      in if run \<noteq> [] \<and> take 1 rest = ''.'' then Some (run @ ''.'', drop 1 rest) else None)"

lemma heading_component_shorter:
  "heading_component s = Some (num, rest) \<Longrightarrow> length rest < length s"
  by (cases s) (auto simp: heading_component_def Let_def split: if_splits)

text \<open>The greedy repetition of components: the longest prefix made of them, and the rest.\<close>

function heading_number_prefix :: "string \<Rightarrow> string \<times> string" where
  "heading_number_prefix s =
     (case heading_component s of
        None \<Rightarrow> ([], s)
      | Some cr \<Rightarrow>
          (let r = heading_number_prefix (snd cr) in (fst cr @ fst r, snd r)))"
  by pat_completeness auto
termination
proof (relation "measure length")
  show "wf (measure (length :: string \<Rightarrow> nat))" by simp
next
  fix s :: string and cr
  assume "heading_component s = Some cr"
  then have "length (snd cr) < length s"
    using heading_component_shorter [of s "fst cr" "snd cr"] by simp
  then show "(snd cr, s) \<in> measure length" by simp
qed

declare heading_number_prefix.simps [simp del]

text \<open>
  \<^verbatim>\<open>heading_pattern.match(line)\<close> for
  \<^verbatim>\<open>^((?:[IVXLCDM]+\.|[0-9]+\.)+)\s+(.*)$\<close>, giving the two groups. Giving up a
  component leaves a letter or digit where \<^verbatim>\<open>\s+\<close> must start, so only the longest
  prefix can match. The lines come from \<^verbatim>\<open>splitlines\<close> and hold no line feed, so
  \<^verbatim>\<open>(.*)$\<close> takes all that follows the whitespace.
\<close>

definition heading_pattern_match :: "string \<Rightarrow> (string \<times> string) option" where
  "heading_pattern_match line =
     (let r = heading_number_prefix line in
      if fst r \<noteq> [] \<and> takeWhile is_space (snd r) \<noteq> []
      then Some (fst r, dropWhile is_space (snd r)) else None)"

definition bare_number_line :: "string \<Rightarrow> bool" where
  \<comment> \<open>\<^verbatim>\<open>re.match(r'^[0-9]+\.\s*$', s)\<close>\<close>
  "bare_number_line s =
     (let rest = dropWhile is_digit s in
      takeWhile is_digit s \<noteq> [] \<and> take 1 rest = ''.'' \<and> list_all is_space (drop 1 rest))"

text \<open>An \<^verbatim>\<open>OrderedDict\<close> is its list of items; assignment to a key that is present
  keeps the key's place.\<close>

fun od_set :: "'k \<Rightarrow> 'v \<Rightarrow> ('k \<times> 'v) list \<Rightarrow> ('k \<times> 'v) list" where
  "od_set k v [] = [(k, v)]"
| "od_set k v (kv # kvs) = (if fst kv = k then (k, v) # kvs else kv # od_set k v kvs)"

text \<open>The first loop of \<^verbatim>\<open>parse_header_and_sections\<close>: the header lines, and the lines
  from the first heading on (\<^verbatim>\<open>lines[idx:]\<close> when the loop is left).\<close>

definition clean_line :: "string \<Rightarrow> string" where
  "clean_line l = rstrip_char (CHR 0x0D) (rstrip_char (CHR 0x0A) l)"

fun header_scan :: "string list \<Rightarrow> string list \<Rightarrow> string list \<times> string list" where
  "header_scan header_lines [] = (header_lines, [])"
| "header_scan header_lines (l # ls) =
     (let line = clean_line l in
      if heading_pattern_match line \<noteq> None then (header_lines, l # ls)
      else if is_line_all_caps (strip line) then (header_lines, l # ls)
      else if bare_number_line (strip line) then (header_lines, l # ls)
      else header_scan (header_lines @ [line]) ls)"

text \<open>The second loop; the state is
  \<^verbatim>\<open>(sections_od, current_heading_key, current_body_lines)\<close>.\<close>

definition commit_section ::
  "(string \<times> string) list \<Rightarrow> string option \<Rightarrow> string list \<Rightarrow> (string \<times> string) list" where
  "commit_section sections_od current_heading_key current_body_lines =
     (case current_heading_key of
        None \<Rightarrow> sections_od
      | Some k \<Rightarrow> od_set k (join [CHR 0x0A] current_body_lines) sections_od)"

definition section_step ::
  "(string \<times> string) list \<times> string option \<times> string list \<Rightarrow> string \<Rightarrow>
   (string \<times> string) list \<times> string option \<times> string list" where
  "section_step st l =
     (let sections_od = fst st; current_heading_key = fst (snd st);
          current_body_lines = snd (snd st); line = clean_line l
      in case heading_pattern_match line of
           Some m \<Rightarrow>
             (let heading_number = strip (fst m); heading_title = strip (snd m);
                  heading_number = (if heading_number \<noteq> [] \<and> last heading_number = CHR ''.''
                                    then butlast heading_number else heading_number)
              in (commit_section sections_od current_heading_key current_body_lines,
                  Some (heading_number @ '' '' @ heading_title), []))
         | None \<Rightarrow>
             if is_line_all_caps (strip line) then
               (commit_section sections_od current_heading_key current_body_lines,
                Some (strip line), [])
             else if bare_number_line (strip line) then
               (commit_section sections_od current_heading_key current_body_lines,
                Some (strip line), [])
             else (sections_od, current_heading_key, current_body_lines @ [line]))"

definition parse_header_and_sections ::
  "string \<Rightarrow> (string \<times> string) list \<times> (string \<times> string) list" where
  "parse_header_and_sections raw_text =
     (let hs = header_scan [] (splitlines raw_text);
          header_od = [(''content'', join [CHR 0x0A] (fst hs))];
          st = foldl section_step ([], None, []) (snd hs)
      in (header_od, commit_section (fst st) (fst (snd st)) (snd (snd st))))"

text \<open>
  \<^verbatim>\<open>classify_headings\<close>. \<^verbatim>\<open>parts[0]\<close> of \<^verbatim>\<open>full_key.split(None, 1)\<close> is the first
  whitespace-delimited word of the key; a key without one makes \<^verbatim>\<open>parts\<close> empty
  and \<^verbatim>\<open>parts[0]\<close> raise.
\<close>

datatype py_error = IndexError | KeyError

definition classify_key :: "string \<Rightarrow> py_error + string" where
  "classify_key full_key =
     (case split_ws full_key of
        [] \<Rightarrow> Inl IndexError
      | heading_number # rest \<Rightarrow>
          (let dot_count = count_list heading_number (CHR ''.'')
           in if dot_count > 1 then Inr ''subsection'' else Inr ''section''))"

fun classify_loop ::
  "(string \<times> string) list \<Rightarrow> string list \<Rightarrow> py_error + (string \<times> string) list" where
  "classify_loop heading_styles [] = Inr heading_styles"
| "classify_loop heading_styles (full_key # keys) =
     (case classify_key full_key of
        Inl e \<Rightarrow> Inl e
      | Inr style \<Rightarrow> classify_loop (od_set full_key style heading_styles) keys)"

definition classify_headings :: "(string \<times> string) list \<Rightarrow> py_error + (string \<times> string) list" where
  "classify_headings sections_od = classify_loop [] (map fst sections_od)"

section \<open>Exhibits\<close>














section \<open>The scanner's fallback for an unterminated title block\<close>

lemma find_bottom_none:
  "list_all (\<lambda>l. \<not> is_line_of_equals l) (drop j lines) \<Longrightarrow> \<not> fst (find_bottom lines j inner)"
proof (induction lines j inner rule: find_bottom.induct)
  case (1 lines j inner_lines)
  show ?case
  proof (cases "j < length lines")
    case False
    then show ?thesis by (simp add: find_bottom.simps [of lines j])
  next
    case True
    then have "drop j lines = lines ! j # drop (Suc j) lines"
      by (simp add: Cons_nth_drop_Suc)
    with "1.prems" have ne: "\<not> is_line_of_equals (lines ! j)"
      and rest: "list_all (\<lambda>l. \<not> is_line_of_equals l) (drop (j + 1) lines)" by simp_all
    from "1.IH" [OF True ne rest] True ne show ?thesis
      by (simp add: find_bottom.simps [of lines j])
  qed
qed

lemma detect_from_plain:
  "list_all (\<lambda>l. \<not> is_line_of_equals l) (drop i lines) \<Longrightarrow>
   detect_from lines i = map plain_item (drop i lines)"
proof (induction "length lines - i" arbitrary: i)
  case 0
  then show ?case by (simp add: detect_from.simps [of lines i])
next
  case (Suc n)
  then have inr: "i < length lines" by simp
  then have d: "drop i lines = lines ! i # drop (Suc i) lines"
    by (simp add: Cons_nth_drop_Suc)
  with Suc.prems have ne: "\<not> is_line_of_equals (lines ! i)"
    and rest: "list_all (\<lambda>l. \<not> is_line_of_equals l) (drop (Suc i) lines)" by simp_all
  from Suc.hyps(2) have "n = length lines - Suc i" by simp
  from Suc.hyps(1) [OF this rest]
  have "detect_from lines (Suc i) = map plain_item (drop (Suc i) lines)" .
  with inr ne d show ?case
    by (simp add: detect_from.simps [of lines i] plain_item_def)
qed

text \<open>
  C9. When the scanner stands at a rule of equals signs (index \<open>i\<close>) and no later line
  of the range is one, it yields that line as a bare delimiter and goes on at line
  \<open>i + 1\<close>: no title block is formed, and every following line is still yielded, as a
  delimiter if it is a rule of dashes and as a normal line otherwise. The scanner is a
  total function: there is no error to raise.
\<close>

theorem unterminated_title_block_fallback:
  assumes "i < length lines" and "is_line_of_equals (lines ! i)"
    and "list_all (\<lambda>l. \<not> is_line_of_equals l) (drop (i + 1) lines)"
  shows "detect_from lines i = DelimiterLine (lines ! i) # detect_from lines (i + 1)
       \<and> detect_from lines (i + 1) = map plain_item (drop (i + 1) lines)"
proof -
  from find_bottom_none [OF assms(3)] have "\<not> fst (find_bottom lines (i + 1) [])" .
  with assms(1,2) have "detect_from lines i = DelimiterLine (lines ! i) # detect_from lines (i + 1)"
    by (simp add: detect_from.simps [of lines i] Let_def)
  with detect_from_plain [OF assms(3)] show ?thesis by simp
qed

theorem unterminated_title_block_fallback_witness:
  "detect_from [''intro'', ''====='', ''T1'', '' ======  '', ''======='', ''body'', ''-----'', ''tail''] 4
     = DelimiterLine ''======='' #
       detect_from [''intro'', ''====='', ''T1'', '' ======  '', ''======='', ''body'', ''-----'', ''tail''] 5
   \<and> detect_from [''intro'', ''====='', ''T1'', '' ======  '', ''======='', ''body'', ''-----'', ''tail''] 5
     = [NormalLine ''body'', DelimiterLine ''-----'', NormalLine ''tail'']"
proof -
  let ?L = "[''intro'', ''====='', ''T1'', '' ======  '', ''======='', ''body'', ''-----'', ''tail'']"
  have h1: "4 < length ?L" by simp
  have h2: "is_line_of_equals (?L ! 4)"
    by (simp add: is_line_of_equals_def strip_def is_space_def)
  have h3: "list_all (\<lambda>l. \<not> is_line_of_equals l) (drop (4 + 1) ?L)"
    by (simp add: is_line_of_equals_def strip_def is_space_def)
  have p: "map plain_item (drop (4 + 1) ?L)
             = [NormalLine ''body'', DelimiterLine ''-----'', NormalLine ''tail'']"
    by (simp add: plain_item_def is_line_of_dashes_def strip_def is_space_def)
  from unterminated_title_block_fallback [OF h1 h2 h3] p show ?thesis by simp
qed

section \<open>The wrapper keeps the words\<close>

lemma words_acc_sep:
  "is_space sp \<Longrightarrow> words_acc cur (a @ sp # b) = words_acc cur a @ words_acc [] b"
  by (induction a arbitrary: cur) simp_all

lemma words_acc_word:
  "list_all non_space w \<Longrightarrow> words_acc cur (w @ rest) = words_acc (cur @ w) rest"
  by (induction w arbitrary: cur) (simp_all add: non_space_def)

lemma words_acc_good:
  "list_all non_space cur \<Longrightarrow>
   list_all (\<lambda>w. w \<noteq> [] \<and> list_all non_space w) (words_acc cur s)"
  by (induction s arbitrary: cur) (simp_all add: non_space_def)

lemma split_ws_good: "list_all (\<lambda>w. w \<noteq> [] \<and> list_all non_space w) (split_ws s)"
  by (simp add: split_ws_def words_acc_good)

lemma split_ws_Nil: "split_ws [] = []"
  by (simp add: split_ws_def)

lemma split_ws_word: "w \<noteq> [] \<Longrightarrow> list_all non_space w \<Longrightarrow> split_ws w = [w]"
  using words_acc_word [of w "[]" "[]"] by (simp add: split_ws_def)

lemma space_is_space: "is_space CHR '' ''"
  by (simp add: is_space_def)

lemma newline_is_space: "is_space CHR 0x0A"
  by (simp add: is_space_def)

lemma split_ws_append_word:
  "w \<noteq> [] \<Longrightarrow> list_all non_space w \<Longrightarrow> split_ws (a @ CHR '' '' # w) = split_ws a @ [w]"
  using words_acc_sep [OF space_is_space, of "[]" a w] split_ws_word [of w]
  by (simp add: split_ws_def)

lemma split_acc_words:
  "concat (map split_ws (split_acc CHR 0x0A p s)) = split_ws (p @ s)"
proof (induction s arbitrary: p)
  case Nil
  then show ?case by simp
next
  case (Cons c cs)
  show ?case
  proof (cases "c = CHR 0x0A")
    case True
    with Cons.IH [of "[]"] words_acc_sep [OF newline_is_space, of "[]" p cs]
    show ?thesis by (simp add: split_ws_def)
  next
    case False
    with Cons.IH [of "p @ [c]"] show ?thesis by simp
  qed
qed

lemma split_on_concat: "concat (map split_ws (split_on CHR 0x0A s)) = split_ws s"
  using split_acc_words [of "[]" s] by (simp add: split_on_def)

lemma wrap_word_words:
  assumes "w \<noteq> []" "list_all non_space w"
  shows "concat (map (\<lambda>l. split_ws (fst l)) (fst (wrap_word sw fn fs mw (al, cur) w)))
           @ split_ws (snd (wrap_word sw fn fs mw (al, cur) w))
         = concat (map (\<lambda>l. split_ws (fst l)) al) @ split_ws cur @ [w]"
  using assms by (simp add: wrap_word_def Let_def split_ws_word split_ws_append_word split_ws_Nil)

lemma foldl_wrap_word_words:
  "list_all (\<lambda>w. w \<noteq> [] \<and> list_all non_space w) ws \<Longrightarrow>
   concat (map (\<lambda>l. split_ws (fst l)) (fst (foldl (wrap_word sw fn fs mw) st ws)))
     @ split_ws (snd (foldl (wrap_word sw fn fs mw) st ws))
   = concat (map (\<lambda>l. split_ws (fst l)) (fst st)) @ split_ws (snd st) @ ws"
proof (induction ws arbitrary: st)
  case Nil
  then show ?case by simp
next
  case (Cons w ws)
  then have w: "w \<noteq> []" "list_all non_space w"
    and ws: "list_all (\<lambda>w. w \<noteq> [] \<and> list_all non_space w) ws" by simp_all
  from Cons.IH [OF ws, of "wrap_word sw fn fs mw st w"]
    wrap_word_words [OF w, of sw fn fs mw "fst st" "snd st"]
  show ?case by simp
qed

lemma wrap_paragraph_words:
  "concat (map (\<lambda>l. split_ws (fst l)) (wrap_paragraph sw fn fs mw al p))
     = concat (map (\<lambda>l. split_ws (fst l)) al) @ split_ws p"
proof (cases "split_ws p = []")
  case True
  then show ?thesis by (simp add: wrap_paragraph_def split_ws_Nil)
next
  case False
  let ?st = "foldl (wrap_word sw fn fs mw) (al, []) (split_ws p)"
  from foldl_wrap_word_words [OF split_ws_good, of sw fn fs mw "(al, [])" p]
  have "concat (map (\<lambda>l. split_ws (fst l)) (fst ?st)) @ split_ws (snd ?st)
          = concat (map (\<lambda>l. split_ws (fst l)) al) @ split_ws p"
    by (simp add: split_ws_Nil)
  with False show ?thesis
    by (cases "snd ?st = []") (simp_all add: wrap_paragraph_def flush_line_def Let_def split_ws_Nil)
qed

lemma foldl_wrap_paragraph_words:
  "concat (map (\<lambda>l. split_ws (fst l)) (foldl (wrap_paragraph sw fn fs mw) al ps))
     = concat (map (\<lambda>l. split_ws (fst l)) al) @ concat (map split_ws ps)"
  by (induction ps arbitrary: al) (simp_all add: wrap_paragraph_words)

text \<open>
  C7. Wrap coverage: the whitespace-delimited words of the output lines of
  \<^verbatim>\<open>wrap_text_to_lines\<close>, taken line after line, are exactly the whitespace-delimited
  words of the input text, in order. This holds for every text, every width measure and
  every maximal width (positive or not).
\<close>

theorem wrap_coverage:
  "concat (map (\<lambda>l. split_ws (fst l)) (wrap_text_to_lines stringWidth full_text font_name font_size max_width))
     = split_ws full_text"
  by (simp add: wrap_text_to_lines_def foldl_wrap_paragraph_words split_on_concat)

lemma wrap_word_prefix:
  "wrap_word sw fn fs mw (al, cur) w
     = (al @ fst (wrap_word sw fn fs mw ([], cur) w), snd (wrap_word sw fn fs mw ([], cur) w))"
  by (simp add: wrap_word_def Let_def)

lemma foldl_wrap_word_prefix:
  "foldl (wrap_word sw fn fs mw) (al, cur) ws
     = (al @ fst (foldl (wrap_word sw fn fs mw) ([], cur) ws),
        snd (foldl (wrap_word sw fn fs mw) ([], cur) ws))"
proof (induction ws arbitrary: al cur)
  case Nil
  then show ?case by simp
next
  case (Cons w ws)
  let ?s = "wrap_word sw fn fs mw ([], cur) w"
  have a: "foldl (wrap_word sw fn fs mw) (al, cur) (w # ws)
          = foldl (wrap_word sw fn fs mw) (al @ fst ?s, snd ?s) ws"
    using wrap_word_prefix [of sw fn fs mw al cur w] by simp
  have b: "foldl (wrap_word sw fn fs mw) (al @ fst ?s, snd ?s) ws
      = ((al @ fst ?s) @ fst (foldl (wrap_word sw fn fs mw) ([], snd ?s) ws),
                    snd (foldl (wrap_word sw fn fs mw) ([], snd ?s) ws))"
    by (rule Cons.IH)
  have c: "foldl (wrap_word sw fn fs mw) ([], cur) (w # ws)
          = (fst ?s @ fst (foldl (wrap_word sw fn fs mw) ([], snd ?s) ws),
                    snd (foldl (wrap_word sw fn fs mw) ([], snd ?s) ws))"
    using Cons.IH [of "fst ?s" "snd ?s"] by simp
  show ?case unfolding a b c by simp
qed

lemma flush_line_prefix: "flush_line (al @ x, c) = al @ flush_line (x, c)"
  by (simp add: flush_line_def)

lemma wrap_paragraph_prefix:
  "wrap_paragraph sw fn fs mw al p = al @ wrap_paragraph sw fn fs mw [] p"
proof -
  have "flush_line (foldl (wrap_word sw fn fs mw) (al, []) (split_ws p))
      = al @ flush_line (foldl (wrap_word sw fn fs mw) ([], []) (split_ws p))"
    using foldl_wrap_word_prefix [of sw fn fs mw al "[]" "split_ws p"]
      flush_line_prefix [of al "fst (foldl (wrap_word sw fn fs mw) ([], []) (split_ws p))"
         "snd (foldl (wrap_word sw fn fs mw) ([], []) (split_ws p))"]
    by simp
  then show ?thesis by (simp add: wrap_paragraph_def Let_def)
qed

lemma foldl_wrap_paragraph_prefix:
  "foldl (wrap_paragraph sw fn fs mw) al ps = al @ foldl (wrap_paragraph sw fn fs mw) [] ps"
proof (induction ps arbitrary: al)
  case Nil
  then show ?case by simp
next
  case (Cons p ps)
  have "foldl (wrap_paragraph sw fn fs mw) al (p # ps)
      = wrap_paragraph sw fn fs mw al p @ foldl (wrap_paragraph sw fn fs mw) [] ps"
    using Cons.IH [of "wrap_paragraph sw fn fs mw al p"] by simp
  also have "\<dots> = al @ wrap_paragraph sw fn fs mw [] p @ foldl (wrap_paragraph sw fn fs mw) [] ps"
    using wrap_paragraph_prefix [of sw fn fs mw al p] by simp
  also have "wrap_paragraph sw fn fs mw [] p @ foldl (wrap_paragraph sw fn fs mw) [] ps
      = foldl (wrap_paragraph sw fn fs mw) [] (p # ps)"
    using Cons.IH [of "wrap_paragraph sw fn fs mw [] p"] by simp
  finally show ?case .
qed

lemma foldl_wrap_paragraph_split:
  "foldl (wrap_paragraph sw fn fs mw) [] (before @ p # after)
     = foldl (wrap_paragraph sw fn fs mw) [] before @ wrap_paragraph sw fn fs mw [] p
       @ foldl (wrap_paragraph sw fn fs mw) [] after"
proof -
  let ?b = "foldl (wrap_paragraph sw fn fs mw) [] before"
  have "foldl (wrap_paragraph sw fn fs mw) [] (before @ p # after)
      = foldl (wrap_paragraph sw fn fs mw) (wrap_paragraph sw fn fs mw ?b p) after" by simp
  also have "\<dots> = wrap_paragraph sw fn fs mw ?b p @ foldl (wrap_paragraph sw fn fs mw) [] after"
    by (rule foldl_wrap_paragraph_prefix)
  also have "wrap_paragraph sw fn fs mw ?b p = ?b @ wrap_paragraph sw fn fs mw [] p"
    by (rule wrap_paragraph_prefix)
  finally show ?thesis by simp
qed

lemma foldl_wrap_word_first_line:
  "list_all (\<lambda>w. w \<noteq> [] \<and> list_all non_space w) ws \<Longrightarrow> split_ws cur = cw # cws \<Longrightarrow>
   \<exists>l b rest more.
     flush_line (foldl (wrap_word sw fn fs mw) (al, cur) ws) = al @ (l, b) # rest
     \<and> split_ws l = cw # more"
proof (induction ws arbitrary: al cur cw cws)
  case Nil
  then have "cur \<noteq> []" by (auto simp: split_ws_Nil)
  with Nil have "flush_line (foldl (wrap_word sw fn fs mw) (al, cur) []) = al @ (cur, False) # []
     \<and> split_ws cur = cw # cws" by (simp add: flush_line_def)
  then show ?case by blast
next
  case (Cons w ws)
  then have w: "w \<noteq> []" "list_all non_space w"
    and ws: "list_all (\<lambda>w. w \<noteq> [] \<and> list_all non_space w) ws" by simp_all
  from Cons.prems(2) have cur: "cur \<noteq> []" by (auto simp: split_ws_Nil)
  show ?case
  proof (cases "sw (cur @ '' '' @ w) fn fs \<le> mw")
    case True
    with cur have step: "wrap_word sw fn fs mw (al, cur) w = (al, cur @ CHR '' '' # w)"
      by (simp add: wrap_word_def Let_def)
    have "split_ws (cur @ CHR '' '' # w) = cw # (cws @ [w])"
      using split_ws_append_word [OF w, of cur] Cons.prems(2) by simp
    from Cons.IH [OF ws this, of al] step show ?thesis by simp
  next
    case False
    with cur have step: "wrap_word sw fn fs mw (al, cur) w = (al @ [(cur, True)], w)"
      by (simp add: wrap_word_def Let_def)
    from Cons.IH [OF ws split_ws_word [OF w], of "al @ [(cur, True)]"]
    obtain l b rest where
      "flush_line (foldl (wrap_word sw fn fs mw) (al @ [(cur, True)], w) ws)
         = (al @ [(cur, True)]) @ (l, b) # rest" by blast
    with step have "flush_line (foldl (wrap_word sw fn fs mw) (al, cur) (w # ws))
         = al @ (cur, True) # ((l, b) # rest)
      \<and> split_ws cur = cw # cws" using Cons.prems(2) by simp
    then show ?thesis by blast
  qed
qed

text \<open>
  C10. When the first word of a paragraph alone measures wider than the maximal width,
  the lines of that paragraph start with an empty line flagged as wrapped, followed by
  the line that starts with that word; when the paragraph has no other word, its lines
  are exactly the empty wrapped line and the word, unflagged. The lines of the
  paragraphs before and after are those the wrapper gives them on their own.
\<close>

theorem over_wide_first_word:
  assumes "split_on CHR 0x0A full_text = before @ par # after"
    and "split_ws par = word # more_words"
    and "\<not> stringWidth word font_name font_size \<le> max_width"
  shows "\<exists>l flag rest ws.
           wrap_text_to_lines stringWidth full_text font_name font_size max_width
             = foldl (wrap_paragraph stringWidth font_name font_size max_width) [] before
               @ ([], True) # (l, flag) # rest
               @ foldl (wrap_paragraph stringWidth font_name font_size max_width) [] after
         \<and> split_ws l = word # ws
         \<and> (more_words = [] \<longrightarrow> (l, flag) = (word, False) \<and> rest = [])"
proof -
  let ?step = "wrap_word stringWidth font_name font_size max_width"
  let ?wp = "wrap_paragraph stringWidth font_name font_size max_width"
  from split_ws_good [of par] assms(2)
  have w: "word \<noteq> []" "list_all non_space word"
    and ws: "list_all (\<lambda>w. w \<noteq> [] \<and> list_all non_space w) more_words" by simp_all
  from assms(3) have first: "?step ([], []) word = ([([], True)], word)"
    by (simp add: wrap_word_def)
  let ?st = "foldl ?step ([([], True)], word) more_words"
  have para: "?wp [] par = flush_line ?st"
    using assms(2) first by (simp add: wrap_paragraph_def Let_def)
  from foldl_wrap_word_first_line [OF ws split_ws_word [OF w], of stringWidth font_name font_size max_width "[([], True)]"]
  obtain l b rest more where
    fl: "flush_line ?st = [([], True)] @ (l, b) # rest"
    and l: "split_ws l = word # more" by blast
  from para fl have p2: "?wp [] par = ([], True) # (l, b) # rest" by simp
  have single: "more_words = [] \<longrightarrow> (l, b) = (word, False) \<and> rest = []"
  proof
    assume "more_words = []"
    with w(1) have "flush_line ?st = [([], True), (word, False)]" by (simp add: flush_line_def)
    with fl show "(l, b) = (word, False) \<and> rest = []" by simp
  qed
  have "wrap_text_to_lines stringWidth full_text font_name font_size max_width
             = foldl ?wp [] before @ ?wp [] par @ foldl ?wp [] after"
    using assms(1) foldl_wrap_paragraph_split [of stringWidth font_name font_size max_width before par after]
    by (simp add: wrap_text_to_lines_def)
  with p2 have "wrap_text_to_lines stringWidth full_text font_name font_size max_width
             = foldl ?wp [] before @ ([], True) # (l, b) # rest @ foldl ?wp [] after"
    by simp
  with l single show ?thesis by blast
qed


theorem over_wide_first_word_witness:
  "wrap_text_to_lines (\<lambda>t fn fs. length t) ''incomprehensibilities'' ''Helvetica'' 10 (6::nat)
     = [([], True), (''incomprehensibilities'', False)]"
proof -
  have h1: "split_on CHR 0x0A ''incomprehensibilities'' = [] @ ''incomprehensibilities'' # []"
    by (simp add: split_on_def)
  have h2: "split_ws ''incomprehensibilities'' = ''incomprehensibilities'' # []"
    by (simp add: split_ws_def is_space_def)
  have h3: "\<not> (\<lambda>t fn fs. length t) ''incomprehensibilities'' ''Helvetica'' 10 \<le> (6::nat)"
    by simp
  from over_wide_first_word [where stringWidth = "\<lambda>t fn fs. length t" and font_name = "''Helvetica''"
      and font_size = 10 and max_width = "6::nat", OF h1 h2 h3]
  show ?thesis by (elim exE conjE) simp
qed

section \<open>The table-of-contents filter meets its rule\<close>

lemma ascii_upper_newline: "ascii_upper c = CHR 0x0A \<Longrightarrow> c = CHR 0x0A"
  by (auto simp: ascii_upper_def split: if_splits)

lemma strip_last_non_space: "strip s \<noteq> [] \<Longrightarrow> \<not> is_space (last (strip s))"
proof -
  assume ne: "strip s \<noteq> []"
  let ?r = "dropWhile is_space (rev (dropWhile is_space s))"
  from ne have r: "?r \<noteq> []" by (simp add: strip_def)
  then have "\<not> is_space (hd ?r)" by (rule hd_dropWhile)
  moreover have "last (strip s) = hd ?r" using r by (simp add: strip_def last_rev)
  ultimately show ?thesis by simp
qed

lemma special_exhibits_match_strip:
  "special_exhibits_match (strip t) = ci_equal (strip t) ''SPECIAL EXHIBITS''"
proof -
  have up: "map ascii_upper ''SPECIAL EXHIBITS'' = ''SPECIAL EXHIBITS''"
    by (simp add: ascii_upper_def)
  have "map ascii_upper (strip t) \<noteq> ''SPECIAL EXHIBITS'' @ [CHR 0x0A]"
  proof
    assume a: "map ascii_upper (strip t) = ''SPECIAL EXHIBITS'' @ [CHR 0x0A]"
    then have ne: "strip t \<noteq> []" by auto
    from a have "last (map ascii_upper (strip t)) = CHR 0x0A" by simp
    with ne have "ascii_upper (last (strip t)) = CHR 0x0A" by (simp add: last_map)
    then have "last (strip t) = CHR 0x0A" by (rule ascii_upper_newline)
    with strip_last_non_space [OF ne] show False by (simp add: is_space_def)
  qed
  then show ?thesis unfolding special_exhibits_match_def ci_equal_def up by simp
qed

lemma toc_in_special:
  "fst (foldl toc_step (acc, f, True) hs) = acc @ hs"
  by (induction hs arbitrary: acc) (simp_all add: toc_step_def)

lemma toc_found:
  "fst (foldl toc_step (acc, True, False) hs)
     = acc @ dropWhile (\<lambda>h. \<not> ci_equal (strip (fst h)) ''SPECIAL EXHIBITS'') hs"
proof (induction hs arbitrary: acc)
  case Nil
  then show ?case by simp
next
  case (Cons h hs)
  show ?case
  proof (cases "special_exhibits_match (strip (fst h))")
    case True
    then have "toc_step (acc, True, False) h = (acc @ [h], True, True)"
      by (simp add: toc_step_def)
    with True toc_in_special [of "acc @ [h]" True hs] show ?thesis
      by (simp add: special_exhibits_match_strip)
  next
    case False
    then have "toc_step (acc, True, False) h = (acc, True, False)"
      by (simp add: toc_step_def)
    with False Cons.IH [of acc] show ?thesis
      by (simp add: special_exhibits_match_strip)
  qed
qed

lemma toc_before:
  "fst (foldl toc_step (acc, False, False) hs) = acc @ filter_for_toc_spec hs"
proof (induction hs arbitrary: acc)
  case Nil
  then show ?case by (simp add: filter_for_toc_spec_def)
next
  case (Cons h hs)
  show ?case
  proof (cases "is_exhibit_reference (fst h)")
    case True
    then have "toc_step (acc, False, False) h = (acc @ [h], True, False)"
      by (simp add: toc_step_def)
    with True toc_found [of "acc @ [h]" hs] show ?thesis
      by (simp add: filter_for_toc_spec_def)
  next
    case False
    then have "toc_step (acc, False, False) h = (acc @ [h], False, False)"
      by (simp add: toc_step_def)
    with False Cons.IH [of "acc @ [h]"] show ?thesis
      by (simp add: filter_for_toc_spec_def)
  qed
qed

lemma toc_example_facts:
  "\<not> is_exhibit_reference ''I. Intro''" "is_exhibit_reference ''EXHIBIT 1: Photo''"
  "\<not> ci_equal (strip ''II. Random'') ''SPECIAL EXHIBITS''"
  "ci_equal (strip ''SPECIAL EXHIBITS'') ''SPECIAL EXHIBITS''"
  by code_simp+

text \<open>
  C6. The filter keeps every heading up to and including the first one that is an
  exhibit reference; after it, headings are dropped until one whose stripped text equals
  \<^verbatim>\<open>SPECIAL EXHIBITS\<close> up to case, and that heading and all later ones are kept
  (\<^const>\<open>filter_for_toc_spec\<close>). In particular the five headings of the example filter
  to four: \<^verbatim>\<open>II. Random\<close> is dropped, whatever the pages and lines recorded.
\<close>

theorem toc_filter_keeps:
  "filter_headings_for_toc hs = filter_for_toc_spec hs
   \<and> filter_headings_for_toc
       [(''I. Intro'', p1, l1, s1), (''EXHIBIT 1: Photo'', p2, l2, s2), (''II. Random'', p3, l3, s3),
        (''SPECIAL EXHIBITS'', p4, l4, s4), (''III. Ledger'', p5, l5, s5)]
     = [(''I. Intro'', p1, l1, s1), (''EXHIBIT 1: Photo'', p2, l2, s2),
        (''SPECIAL EXHIBITS'', p4, l4, s4), (''III. Ledger'', p5, l5, s5)]"
proof -
  have g: "\<And>hs. filter_headings_for_toc hs = filter_for_toc_spec hs"
    using toc_before [of "[]"] by (simp add: filter_headings_for_toc_def)
  have "filter_for_toc_spec
       [(''I. Intro'', p1, l1, s1), (''EXHIBIT 1: Photo'', p2, l2, s2), (''II. Random'', p3, l3, s3),
        (''SPECIAL EXHIBITS'', p4, l4, s4), (''III. Ledger'', p5, l5, s5)]
     = [(''I. Intro'', p1, l1, s1), (''EXHIBIT 1: Photo'', p2, l2, s2),
        (''SPECIAL EXHIBITS'', p4, l4, s4), (''III. Ledger'', p5, l5, s5)]"
    using toc_example_facts by (simp add: filter_for_toc_spec_def)
  with g show ?thesis by simp
qed

section \<open>The two passes of the paginator\<close>

lemma count_lines_ge: "i \<le> fst (count_lines segs m i u)"
proof (induction segs m i u rule: count_lines.induct)
  case (1 segs m i u)
  show ?case
  proof (cases "i < length segs \<and> u < m \<and> \<not> page_always_new (segs ! i)")
    case True
    with "1.IH" have "i + 1 \<le> fst (count_lines segs m (i + 1) (u + 1))" by simp
    with True show ?thesis by (simp add: count_lines.simps [of segs m i u])
  next
    case False
    then show ?thesis by (auto simp: count_lines.simps [of segs m i u])
  qed
qed

lemma count_lines_le: "i \<le> length segs \<Longrightarrow> fst (count_lines segs m i u) \<le> length segs"
proof (induction segs m i u rule: count_lines.induct)
  case (1 segs m i u)
  show ?case
  proof (cases "i < length segs \<and> u < m \<and> \<not> page_always_new (segs ! i)")
    case True
    with "1.IH" have "fst (count_lines segs m (i + 1) (u + 1)) \<le> length segs" by simp
    with True show ?thesis by (simp add: count_lines.simps [of segs m i u])
  next
    case False
    with "1.prems" show ?thesis by (auto simp: count_lines.simps [of segs m i u])
  qed
qed

lemma count_lines_step:
  "i < length segs \<Longrightarrow> u < m \<Longrightarrow> \<not> page_always_new (segs ! i) \<Longrightarrow>
   count_lines segs m i u = count_lines segs m (i + 1) (u + 1)"
  by (simp add: count_lines.simps [of segs m i u])

lemma count_lines_stop:
  "\<not> (i < length segs \<and> u < m \<and> \<not> page_always_new (segs ! i)) \<Longrightarrow>
   count_lines segs m i u = (i, u)"
  by (auto simp: count_lines.simps [of segs m i u])

text \<open>A run of the drawing loop that does not start on a title block at line count 0.\<close>

lemma draw_loop_lines:
  "0 < c \<or> \<not> (e < length segs \<and> page_always_new (segs ! e)) \<Longrightarrow>
   draw_loop segs m pn e c hp d
     = (fst (count_lines segs m e c),
        hp @ concat (map (headings_of_placed pn)
                (map (\<lambda>j. PlacedLine (j + 1) (segs ! j)) [e..<fst (count_lines segs m e c)])),
        d @ map (\<lambda>j. PlacedLine (j + 1) (segs ! j)) [e..<fst (count_lines segs m e c)])"
proof (induction segs m pn e c hp d rule: draw_loop.induct)
  case (1 segs m pn e c hp d)
  show ?case
  proof (cases "e < length segs \<and> c < m")
    case False
    then have "count_lines segs m e c = (e, c)" by (auto simp: count_lines_stop)
    with False show ?thesis by (auto simp: draw_loop.simps [of segs m pn e c hp d])
  next
    case cond: True
    show ?thesis
    proof (cases "page_always_new (segs ! e)")
      case True
      with cond "1.prems" have c: "0 < c" by simp
      from True have "count_lines segs m e c = (e, c)" by (simp add: count_lines_stop)
      with True cond c show ?thesis by (simp add: draw_loop.simps [of segs m pn e c hp d])
    next
      case False
      let ?e' = "fst (count_lines segs m (e + 1) (c + 1))"
      let ?hp = "if is_heading (segs ! e) \<or> is_subheading (segs ! e)
                 then hp @ [(seg_text (segs ! e), pn, e + 1, is_subheading (segs ! e))] else hp"
      from cond False have cl: "count_lines segs m e c = count_lines segs m (e + 1) (c + 1)"
        by (simp add: count_lines_step)
      have lt: "e < ?e'" using count_lines_ge [of "e + 1" segs m "c + 1"] by simp
      then have up: "[e..<?e'] = e # [e + 1..<?e']" by (simp add: upt_conv_Cons)
      have step: "draw_loop segs m pn e c hp d
          = draw_loop segs m pn (e + 1) (c + 1) ?hp (d @ [PlacedLine (e + 1) (segs ! e)])"
        using cond False by (simp add: draw_loop.simps [of segs m pn e c hp d] Let_def)
      have "draw_loop segs m pn (e + 1) (c + 1) ?hp (d @ [PlacedLine (e + 1) (segs ! e)])
          = (?e',
             ?hp @ concat (map (headings_of_placed pn)
                (map (\<lambda>j. PlacedLine (j + 1) (segs ! j)) [e + 1..<?e'])),
             (d @ [PlacedLine (e + 1) (segs ! e)])
               @ map (\<lambda>j. PlacedLine (j + 1) (segs ! j)) [e + 1..<?e'])"
        using "1.IH" [of "segs ! e" "e + 1"] cond False by simp
      with step cl up show ?thesis by simp
    qed
  qed
qed

lemma draw_loop_title:
  "0 < m \<Longrightarrow> e < length segs \<Longrightarrow> page_always_new (segs ! e) \<Longrightarrow>
   draw_loop segs m pn e 0 hp d = (e + 1, hp, d @ [PlacedTitleBlock (seg_lines (segs ! e))])"
  by (simp add: draw_loop.simps [of segs m pn e 0 hp d])


lemma count_lines_no_title:
  "i \<le> j \<Longrightarrow> j < fst (count_lines segs m i u) \<Longrightarrow> \<not> page_always_new (segs ! j)"
proof (induction segs m i u rule: count_lines.induct)
  case (1 segs m i u)
  show ?case
  proof (cases "i < length segs \<and> u < m \<and> \<not> page_always_new (segs ! i)")
    case False
    then have "count_lines segs m i u = (i, u)" by (rule count_lines_stop)
    with "1.prems" show ?thesis by simp
  next
    case True
    then have cl: "count_lines segs m i u = count_lines segs m (i + 1) (u + 1)"
      by (simp add: count_lines_step)
    show ?thesis
    proof (cases "j = i")
      case True
      with \<open>i < length segs \<and> u < m \<and> \<not> page_always_new (segs ! i)\<close> show ?thesis by simp
    next
      case False
      with "1.prems" cl have "i + 1 \<le> j" "j < fst (count_lines segs m (i + 1) (u + 1))"
        by simp_all
      with "1.IH" True show ?thesis by simp
    qed
  qed
qed

lemma draw_page_lines:
  assumes "0 < m" and "i < length segs" and "\<not> page_always_new (segs ! i)"
  shows "draw_page_of_segments segs i m pn tot hp
     = (fst (count_lines segs m i 0),
        hp @ page_headings \<lparr>page_no = pn, page_total = tot,
               content = map (place_segment segs) [i..<fst (count_lines segs m i 0)]\<rparr>,
        \<lparr>page_no = pn, page_total = tot,
         content = map (place_segment segs) [i..<fst (count_lines segs m i 0)]\<rparr>)"
proof -
  let ?e = "fst (count_lines segs m i 0)"
  have eq: "map (\<lambda>j. PlacedLine (j + 1) (segs ! j)) [i..<?e] = map (place_segment segs) [i..<?e]"
    using count_lines_no_title [of i _ segs m 0] by (simp add: place_segment_def)
  have "draw_loop segs m pn i 0 hp []
     = (?e,
        hp @ concat (map (headings_of_placed pn)
                (map (\<lambda>j. PlacedLine (j + 1) (segs ! j)) [i..<?e])),
        [] @ map (\<lambda>j. PlacedLine (j + 1) (segs ! j)) [i..<?e])"
    by (rule draw_loop_lines) (simp add: assms(3))
  then have "draw_loop segs m pn i 0 hp []
     = (?e, hp @ concat (map (headings_of_placed pn) (map (place_segment segs) [i..<?e])),
        map (place_segment segs) [i..<?e])"
    unfolding eq by simp
  then show ?thesis by (simp add: draw_page_of_segments_def page_headings_def)
qed

lemma draw_page_title:
  assumes "0 < m" and "i < length segs" and "page_always_new (segs ! i)"
  shows "draw_page_of_segments segs i m pn tot hp
     = (i + 1,
        hp @ page_headings \<lparr>page_no = pn, page_total = tot,
               content = map (place_segment segs) [i..<i + 1]\<rparr>,
        \<lparr>page_no = pn, page_total = tot, content = map (place_segment segs) [i..<i + 1]\<rparr>)"
  using draw_loop_title [OF assms, of pn hp "[]"] assms(3)
  by (simp add: draw_page_of_segments_def page_headings_def place_segment_def)

lemma next_index_bounds:
  assumes "0 < m" and "i < length segs"
  shows "i < next_index segs m i \<and> next_index segs m i \<le> length segs"
proof (cases "page_always_new (segs ! i)")
  case True
  with assms show ?thesis by (simp add: next_index_def)
next
  case False
  with assms have "count_lines segs m i 0 = count_lines segs m (i + 1) (0 + 1)"
    by (simp add: count_lines_step)
  with count_lines_ge [of "i + 1" segs m "0 + 1"] count_lines_le [of "i + 1" segs m "0 + 1"]
    assms False
  show ?thesis by (simp add: next_index_def)
qed

lemma draw_page_next:
  assumes "0 < m" and "i < length segs"
  shows "draw_page_of_segments segs i m pn tot hp
     = (next_index segs m i,
        hp @ page_headings \<lparr>page_no = pn, page_total = tot,
               content = map (place_segment segs) [i..<next_index segs m i]\<rparr>,
        \<lparr>page_no = pn, page_total = tot,
         content = map (place_segment segs) [i..<next_index segs m i]\<rparr>)"
  using draw_page_lines [OF assms, of pn tot hp] draw_page_title [OF assms, of pn tot hp]
  by (cases "page_always_new (segs ! i)") (simp_all add: next_index_def)

lemma page_title_alone:
  assumes "0 < m" and "i < length segs"
    and "PlacedTitleBlock ls \<in> set (map (place_segment segs) [i..<next_index segs m i])"
  shows "map (place_segment segs) [i..<next_index segs m i] = [PlacedTitleBlock ls]"
proof (cases "page_always_new (segs ! i)")
  case True
  with assms(3) show ?thesis by (simp add: next_index_def)
next
  case False
  from assms(3) obtain j where j: "i \<le> j" "j < next_index segs m i"
    "place_segment segs j = PlacedTitleBlock ls" by auto
  with False have "\<not> page_always_new (segs ! j)"
    using count_lines_no_title [of i j segs m 0] by (simp add: next_index_def)
  with j(3) show ?thesis by (simp add: place_segment_def)
qed


lemma upt_split: "i \<le> k \<Longrightarrow> k \<le> n \<Longrightarrow> [i..<n] = [i..<k] @ [k..<n]"
  using upt_add_eq_append [of i k "n - k"] by simp

lemma paginate_from:
  assumes "0 < m" and "i \<le> length segs"
  shows "\<exists>ps. estimate_pages segs m i tp = Some (tp + length ps)
     \<and> place_pages segs m tot pn i hp pages
         = Some (pn + length ps, hp @ concat (map page_headings ps), pages @ ps)
     \<and> concat (map content ps) = map (place_segment segs) [i..<length segs]
     \<and> map page_no ps = [pn..<pn + length ps]
     \<and> (\<forall>p\<in>set ps. \<forall>ls. PlacedTitleBlock ls \<in> set (content p)
            \<longrightarrow> content p = [PlacedTitleBlock ls])"
  using assms(2)
proof (induction "length segs - i" arbitrary: i tp pn hp pages rule: less_induct)
  case less
  show ?case
  proof (cases "i < length segs")
    case False
    with less.prems have "i = length segs" by simp
    from False have "estimate_pages segs m i tp = Some (tp + length ([] :: page list))"
      and "place_pages segs m tot pn i hp pages
         = Some (pn + length ([] :: page list), hp @ concat (map page_headings []), pages @ [])"
      by (simp_all add: estimate_pages.simps [of segs m i tp]
            place_pages.simps [of segs m tot pn i hp pages])
    with \<open>i = length segs\<close> show ?thesis by (intro exI [of _ "[]"]) simp
  next
    case True
    let ?nx = "next_index segs m i"
    let ?pg = "\<lparr>page_no = pn, page_total = tot,
                content = map (place_segment segs) [i..<?nx]\<rparr>"
    from next_index_bounds [OF assms(1) True] have nx: "i < ?nx" "?nx \<le> length segs" by simp_all
    then have "length segs - ?nx < length segs - i" using True by arith
    from less.hyps [OF this nx(2), of "tp + 1" "pn + 1" "hp @ page_headings ?pg" "pages @ [?pg]"]
    obtain ps where
      est: "estimate_pages segs m ?nx (tp + 1) = Some (tp + 1 + length ps)"
      and plc: "place_pages segs m tot (pn + 1) ?nx (hp @ page_headings ?pg) (pages @ [?pg])
         = Some (pn + 1 + length ps, (hp @ page_headings ?pg) @ concat (map page_headings ps),
                 (pages @ [?pg]) @ ps)"
      and cont: "concat (map content ps) = map (place_segment segs) [?nx..<length segs]"
      and nos: "map page_no ps = [pn + 1..<pn + 1 + length ps]"
      and alone: "\<forall>p\<in>set ps. \<forall>ls. PlacedTitleBlock ls \<in> set (content p)
            \<longrightarrow> content p = [PlacedTitleBlock ls]"
      by blast
    have e1: "estimate_pages segs m i tp = estimate_pages segs m ?nx (tp + 1)"
      using True by (simp add: estimate_pages.simps [of segs m i tp] next_index_def)
    have p1: "place_pages segs m tot pn i hp pages
        = place_pages segs m tot (pn + 1) ?nx (hp @ page_headings ?pg) (pages @ [?pg])"
      using True draw_page_next [OF assms(1) True, of pn tot hp]
      by (simp add: place_pages.simps [of segs m tot pn i hp pages] Let_def)
    have c1: "concat (map content (?pg # ps)) = map (place_segment segs) [i..<length segs]"
      using cont upt_split [of i ?nx "length segs"] nx by simp
    have "[pn..<pn + length (?pg # ps)] = pn # [pn + 1..<pn + 1 + length ps]"
      by (subst upt_rec) simp
    with nos have n1: "map page_no (?pg # ps) = [pn..<pn + length (?pg # ps)]"
      by (simp del: upt_Suc)
    have a1: "\<forall>p\<in>set (?pg # ps). \<forall>ls. PlacedTitleBlock ls \<in> set (content p)
            \<longrightarrow> content p = [PlacedTitleBlock ls]"
      using alone page_title_alone [OF assms(1) True] by simp
    from e1 est have e2: "estimate_pages segs m i tp = Some (tp + length (?pg # ps))" by simp
    from p1 plc have p2: "place_pages segs m tot pn i hp pages
         = Some (pn + length (?pg # ps), hp @ concat (map page_headings (?pg # ps)),
                 pages @ (?pg # ps))" by simp
    from e2 p2 c1 n1 a1 show ?thesis by blast
  qed
qed


lemma generate_legal_document_runs:
  assumes "0 < m"
  shows "\<exists>ps. generate_legal_document segs m exhibits hp0
           = Some (length ps, ps, hp0 @ concat (map page_headings ps))
     \<and> estimate_pages segs m 0 0 = Some (length ps)
     \<and> concat (map content ps) = map (place_segment segs) [0..<length segs]
     \<and> map page_no ps = [1..<1 + length ps]
     \<and> (\<forall>p\<in>set ps. \<forall>ls. PlacedTitleBlock ls \<in> set (content p)
            \<longrightarrow> content p = [PlacedTitleBlock ls])"
proof -
  let ?ex = "(if exhibits \<noteq> [] then length exhibits else 0) * 2"
  from paginate_from [OF assms le0, of segs 0 0 1 hp0 "[]"]
  obtain ps0 where "estimate_pages segs m 0 0 = Some (0 + length ps0)
     \<and> place_pages segs m 0 1 0 hp0 []
         = Some (1 + length ps0, hp0 @ concat (map page_headings ps0), [] @ ps0)
     \<and> concat (map content ps0) = map (place_segment segs) [0..<length segs]
     \<and> map page_no ps0 = [1..<1 + length ps0]
     \<and> (\<forall>p\<in>set ps0. \<forall>ls. PlacedTitleBlock ls \<in> set (content p)
            \<longrightarrow> content p = [PlacedTitleBlock ls])" ..
  then have est: "estimate_pages segs m 0 0 = Some (length ps0)" by simp
  from paginate_from [OF assms le0, of segs 0 "length ps0 + ?ex" 1 hp0 "[]"]
  obtain ps where a: "estimate_pages segs m 0 0 = Some (0 + length ps)
     \<and> place_pages segs m (length ps0 + ?ex) 1 0 hp0 []
         = Some (1 + length ps, hp0 @ concat (map page_headings ps), [] @ ps)
     \<and> concat (map content ps) = map (place_segment segs) [0..<length segs]
     \<and> map page_no ps = [1..<1 + length ps]
     \<and> (\<forall>p\<in>set ps. \<forall>ls. PlacedTitleBlock ls \<in> set (content p)
            \<longrightarrow> content p = [PlacedTitleBlock ls])" ..
  note est' = a [THEN conjunct1]
  note plc = a [THEN conjunct2, THEN conjunct1]
  note rest = a [THEN conjunct2, THEN conjunct2]
  note r1 = rest [THEN conjunct1]
  note r2 = rest [THEN conjunct2, THEN conjunct1]
  note r3 = rest [THEN conjunct2, THEN conjunct2]
  from est est' have len: "length ps0 = length ps" by simp
  from plc len have plc': "place_pages segs m (length ps + ?ex) 1 0 hp0 []
         = Some (1 + length ps, hp0 @ concat (map page_headings ps), ps)" by simp
  from est' have e: "estimate_pages segs m 0 0 = Some (length ps)" by simp
  have g: "generate_legal_document segs m exhibits hp0
           = Some (length ps, ps, hp0 @ concat (map page_headings ps))"
    unfolding generate_legal_document_def Let_def e option.case plc' by simp
  show ?thesis
    by (rule exI [of _ ps]) (intro conjI g e r1 r2 r3)
qed


lemma page_headings_page: "h \<in> set (page_headings p) \<Longrightarrow> fst (snd h) = page_no p"
proof -
  assume "h \<in> set (page_headings p)"
  then obtain x where "x \<in> set (content p)" and h: "h \<in> set (headings_of_placed (page_no p) x)"
    by (auto simp: page_headings_def)
  from h show ?thesis by (cases x) (auto split: if_splits)
qed

lemma sorted_constant: "(\<forall>x\<in>set xs. x = c) \<Longrightarrow> sorted (xs :: nat list)"
  by (induction xs) auto

lemma headings_sorted:
  "sorted (map page_no ps) \<Longrightarrow>
   sorted (map (\<lambda>h. fst (snd h)) (concat (map page_headings ps)))"
proof (induction ps)
  case Nil
  then show ?case by simp
next
  case (Cons p ps)
  then have tl: "sorted (map (\<lambda>h. fst (snd h)) (concat (map page_headings ps)))"
    and le: "\<forall>q\<in>set ps. page_no p \<le> page_no q" by simp_all
  have hd: "sorted (map (\<lambda>h. fst (snd h)) (page_headings p))"
    by (rule sorted_constant [of _ "page_no p"]) (auto dest: page_headings_page)
  have "\<forall>x\<in>set (map (\<lambda>h. fst (snd h)) (page_headings p)).
          \<forall>y\<in>set (map (\<lambda>h. fst (snd h)) (concat (map page_headings ps))). x \<le> y"
    using le by (auto dest!: page_headings_page)
  with hd tl show ?case by (simp add: sorted_append)
qed

text \<open>
  C1. For a positive \<^verbatim>\<open>max_lines_per_page\<close> both passes end, and the page count of the
  estimation pass is the number of text pages the placement pass draws, one for each
  call of \<^verbatim>\<open>draw_page_of_segments\<close>.
\<close>

theorem estimate_matches_placement:
  assumes "0 < max_lines_per_page"
  shows "\<exists>text_pages pages hp.
           generate_legal_document segments max_lines_per_page exhibits heading_positions
             = Some (text_pages, pages, hp)
         \<and> estimate_pages segments max_lines_per_page 0 0 = Some text_pages
         \<and> length pages = text_pages"
proof -
  from generate_legal_document_runs [OF assms, of segments exhibits heading_positions]
  obtain ps where
    "generate_legal_document segments max_lines_per_page exhibits heading_positions
       = Some (length ps, ps, heading_positions @ concat (map page_headings ps))"
    and "estimate_pages segments max_lines_per_page 0 0 = Some (length ps)"
    by (elim exE conjE)
  then show ?thesis by simp
qed

theorem estimate_matches_placement_witness:
  "0 < (2::nat) \<and>
   (\<exists>text_pages pages hp.
      generate_legal_document
       [TextSegment ''I. CLAIMS'' ''Helvetica-Bold'' 10 ''center'' True False,
        TextSegment ''first'' ''Helvetica'' 10 ''left'' False False,
        TitleBlockSegment [''NOTICE'', ''OF MOTION''],
        TextSegment ''1.2.3 Sub'' ''Helvetica'' 9 ''center'' False True,
        DelimiterSegment ''Helvetica'' 9,
        TextSegment ''last'' ''Helvetica'' 9 ''left'' False False] 2 [] []
        = Some (text_pages, pages, hp)
      \<and> estimate_pages
       [TextSegment ''I. CLAIMS'' ''Helvetica-Bold'' 10 ''center'' True False,
        TextSegment ''first'' ''Helvetica'' 10 ''left'' False False,
        TitleBlockSegment [''NOTICE'', ''OF MOTION''],
        TextSegment ''1.2.3 Sub'' ''Helvetica'' 9 ''center'' False True,
        DelimiterSegment ''Helvetica'' 9,
        TextSegment ''last'' ''Helvetica'' 9 ''left'' False False] 2 0 0 = Some text_pages
      \<and> length pages = text_pages)"
  by (rule conjI, simp, rule estimate_matches_placement, simp)

text \<open>
  C2. Title-block atomicity. For a positive \<^verbatim>\<open>max_lines_per_page\<close> the placement
  ends; the pages, read in order, show the segments in order, each once, a title block
  as one whole item (\<^const>\<open>place_segment\<close>); and a page that shows a title block
  shows nothing else.
\<close>

theorem title_block_atomicity:
  assumes "0 < max_lines_per_page"
  shows "\<exists>text_pages pages hp.
           generate_legal_document segments max_lines_per_page exhibits heading_positions
             = Some (text_pages, pages, hp)
         \<and> concat (map content pages) = map (place_segment segments) [0..<length segments]
         \<and> (\<forall>p\<in>set pages. \<forall>block_lines. PlacedTitleBlock block_lines \<in> set (content p)
               \<longrightarrow> content p = [PlacedTitleBlock block_lines])"
proof -
  from generate_legal_document_runs [OF assms, of segments exhibits heading_positions]
  obtain ps where
    "generate_legal_document segments max_lines_per_page exhibits heading_positions
       = Some (length ps, ps, heading_positions @ concat (map page_headings ps))"
    and "concat (map content ps) = map (place_segment segments) [0..<length segments]"
    and "\<forall>p\<in>set ps. \<forall>ls. PlacedTitleBlock ls \<in> set (content p)
            \<longrightarrow> content p = [PlacedTitleBlock ls]"
    by (elim exE conjE)
  then show ?thesis by simp
qed

theorem title_block_atomicity_witness:
  "0 < (2::nat) \<and>
   (\<exists>text_pages pages hp.
      generate_legal_document
       [TextSegment ''I. CLAIMS'' ''Helvetica-Bold'' 10 ''center'' True False,
        TextSegment ''first'' ''Helvetica'' 10 ''left'' False False,
        TitleBlockSegment [''NOTICE'', ''OF MOTION''],
        TextSegment ''1.2.3 Sub'' ''Helvetica'' 9 ''center'' False True,
        DelimiterSegment ''Helvetica'' 9,
        TextSegment ''last'' ''Helvetica'' 9 ''left'' False False] 2 [] []
        = Some (text_pages, pages, hp)
      \<and> concat (map content pages)
          = map (place_segment
       [TextSegment ''I. CLAIMS'' ''Helvetica-Bold'' 10 ''center'' True False,
        TextSegment ''first'' ''Helvetica'' 10 ''left'' False False,
        TitleBlockSegment [''NOTICE'', ''OF MOTION''],
        TextSegment ''1.2.3 Sub'' ''Helvetica'' 9 ''center'' False True,
        DelimiterSegment ''Helvetica'' 9,
        TextSegment ''last'' ''Helvetica'' 9 ''left'' False False])
              [0..<length
       [TextSegment ''I. CLAIMS'' ''Helvetica-Bold'' 10 ''center'' True False,
        TextSegment ''first'' ''Helvetica'' 10 ''left'' False False,
        TitleBlockSegment [''NOTICE'', ''OF MOTION''],
        TextSegment ''1.2.3 Sub'' ''Helvetica'' 9 ''center'' False True,
        DelimiterSegment ''Helvetica'' 9,
        TextSegment ''last'' ''Helvetica'' 9 ''left'' False False]]
      \<and> (\<forall>p\<in>set pages. \<forall>block_lines. PlacedTitleBlock block_lines \<in> set (content p)
               \<longrightarrow> content p = [PlacedTitleBlock block_lines]))"
  by (rule conjI, simp, rule title_block_atomicity, simp)

text \<open>
  C4, amended. The gutter number of a placed segment that is not a title block is its
  position in the whole segment sequence counted from 1, that is the count of all
  segments placed so far, title blocks included, with the current one; and the heading
  coordinates are those of the placed heading lines, with that number as their line
  (\<^const>\<open>page_headings\<close>).
\<close>

theorem gutter_number_is_position:
  assumes "0 < max_lines_per_page"
  shows "\<exists>text_pages pages hp.
           generate_legal_document segments max_lines_per_page exhibits heading_positions
             = Some (text_pages, pages, hp)
         \<and> length (concat (map content pages)) = length segments
         \<and> (\<forall>k<length segments. \<not> page_always_new (segments ! k)
               \<longrightarrow> concat (map content pages) ! k = PlacedLine (k + 1) (segments ! k))
         \<and> hp = heading_positions @ concat (map page_headings pages)"
proof -
  from generate_legal_document_runs [OF assms, of segments exhibits heading_positions]
  obtain ps where
    g: "generate_legal_document segments max_lines_per_page exhibits heading_positions
       = Some (length ps, ps, heading_positions @ concat (map page_headings ps))"
    and c: "concat (map content ps) = map (place_segment segments) [0..<length segments]"
    by (elim exE conjE)
  from c have "length (concat (map content ps)) = length segments"
    and "\<forall>k<length segments. \<not> page_always_new (segments ! k)
               \<longrightarrow> concat (map content ps) ! k = PlacedLine (k + 1) (segments ! k)"
    by (simp_all add: place_segment_def)
  with g show ?thesis by simp
qed

theorem gutter_number_is_position_witness:
  "0 < (2::nat) \<and>
   (\<exists>text_pages pages hp.
      generate_legal_document
       [TextSegment ''I. CLAIMS'' ''Helvetica-Bold'' 10 ''center'' True False,
        TextSegment ''first'' ''Helvetica'' 10 ''left'' False False,
        TitleBlockSegment [''NOTICE'', ''OF MOTION''],
        TextSegment ''1.2.3 Sub'' ''Helvetica'' 9 ''center'' False True,
        DelimiterSegment ''Helvetica'' 9,
        TextSegment ''last'' ''Helvetica'' 9 ''left'' False False] 2 [] []
        = Some (text_pages, pages, hp)
      \<and> length (concat (map content pages)) = length
       [TextSegment ''I. CLAIMS'' ''Helvetica-Bold'' 10 ''center'' True False,
        TextSegment ''first'' ''Helvetica'' 10 ''left'' False False,
        TitleBlockSegment [''NOTICE'', ''OF MOTION''],
        TextSegment ''1.2.3 Sub'' ''Helvetica'' 9 ''center'' False True,
        DelimiterSegment ''Helvetica'' 9,
        TextSegment ''last'' ''Helvetica'' 9 ''left'' False False]
      \<and> (\<forall>k<length
       [TextSegment ''I. CLAIMS'' ''Helvetica-Bold'' 10 ''center'' True False,
        TextSegment ''first'' ''Helvetica'' 10 ''left'' False False,
        TitleBlockSegment [''NOTICE'', ''OF MOTION''],
        TextSegment ''1.2.3 Sub'' ''Helvetica'' 9 ''center'' False True,
        DelimiterSegment ''Helvetica'' 9,
        TextSegment ''last'' ''Helvetica'' 9 ''left'' False False].
             \<not> page_always_new (
       [TextSegment ''I. CLAIMS'' ''Helvetica-Bold'' 10 ''center'' True False,
        TextSegment ''first'' ''Helvetica'' 10 ''left'' False False,
        TitleBlockSegment [''NOTICE'', ''OF MOTION''],
        TextSegment ''1.2.3 Sub'' ''Helvetica'' 9 ''center'' False True,
        DelimiterSegment ''Helvetica'' 9,
        TextSegment ''last'' ''Helvetica'' 9 ''left'' False False] ! k)
               \<longrightarrow> concat (map content pages) ! k = PlacedLine (k + 1) (
       [TextSegment ''I. CLAIMS'' ''Helvetica-Bold'' 10 ''center'' True False,
        TextSegment ''first'' ''Helvetica'' 10 ''left'' False False,
        TitleBlockSegment [''NOTICE'', ''OF MOTION''],
        TextSegment ''1.2.3 Sub'' ''Helvetica'' 9 ''center'' False True,
        DelimiterSegment ''Helvetica'' 9,
        TextSegment ''last'' ''Helvetica'' 9 ''left'' False False] ! k))
      \<and> hp = [] @ concat (map page_headings pages))"
  by (rule conjI, simp, rule gutter_number_is_position, simp)

text \<open>
  C8. The page numbers of the heading coordinates, in list order, never decrease
  (the list starts empty, as \<^verbatim>\<open>main\<close> passes it).
\<close>

theorem heading_pages_nondecreasing:
  assumes "0 < max_lines_per_page"
  shows "\<exists>text_pages pages hp.
           generate_legal_document segments max_lines_per_page exhibits [] = Some (text_pages, pages, hp)
         \<and> sorted (map (\<lambda>h. fst (snd h)) hp)"
proof -
  from generate_legal_document_runs [OF assms, of segments exhibits "[]"]
  obtain ps where
    g: "generate_legal_document segments max_lines_per_page exhibits []
       = Some (length ps, ps, [] @ concat (map page_headings ps))"
    and n: "map page_no ps = [1..<1 + length ps]"
    by (elim exE conjE)
  from n have "sorted (map page_no ps)" by (simp del: upt_Suc)
  then have "sorted (map (\<lambda>h. fst (snd h)) (concat (map page_headings ps)))"
    by (rule headings_sorted)
  with g show ?thesis by simp
qed

theorem heading_pages_nondecreasing_witness:
  "0 < (2::nat) \<and>
   (\<exists>text_pages pages hp.
      generate_legal_document
       [TextSegment ''I. CLAIMS'' ''Helvetica-Bold'' 10 ''center'' True False,
        TextSegment ''first'' ''Helvetica'' 10 ''left'' False False,
        TitleBlockSegment [''NOTICE'', ''OF MOTION''],
        TextSegment ''1.2.3 Sub'' ''Helvetica'' 9 ''center'' False True,
        DelimiterSegment ''Helvetica'' 9,
        TextSegment ''last'' ''Helvetica'' 9 ''left'' False False] 2 [] []
        = Some (text_pages, pages, hp)
      \<and> sorted (map (\<lambda>h. fst (snd h)) hp))"
  by (rule conjI, simp, rule heading_pages_nondecreasing, simp)

lemma pagination_example:
  "generate_legal_document
     [TextSegment ''I. CLAIMS'' ''Helvetica-Bold'' 10 ''center'' True False,
      TextSegment ''first'' ''Helvetica'' 10 ''left'' False False,
      TitleBlockSegment [''NOTICE'', ''OF MOTION''],
      TextSegment ''1.2.3 Sub'' ''Helvetica'' 9 ''center'' False True,
      DelimiterSegment ''Helvetica'' 9,
      TextSegment ''last'' ''Helvetica'' 9 ''left'' False False] 2 [] []
   = Some (4,
       [\<lparr>page_no = 1, page_total = 4, content =
           [PlacedLine 1 (TextSegment ''I. CLAIMS'' ''Helvetica-Bold'' 10 ''center'' True False),
            PlacedLine 2 (TextSegment ''first'' ''Helvetica'' 10 ''left'' False False)]\<rparr>,
        \<lparr>page_no = 2, page_total = 4, content = [PlacedTitleBlock [''NOTICE'', ''OF MOTION'']]\<rparr>,
        \<lparr>page_no = 3, page_total = 4, content =
           [PlacedLine 4 (TextSegment ''1.2.3 Sub'' ''Helvetica'' 9 ''center'' False True),
            PlacedLine 5 (DelimiterSegment ''Helvetica'' 9)]\<rparr>,
        \<lparr>page_no = 4, page_total = 4, content =
           [PlacedLine 6 (TextSegment ''last'' ''Helvetica'' 9 ''left'' False False)]\<rparr>],
       [(''I. CLAIMS'', 1, 1, False), (''1.2.3 Sub'', 3, 4, True)])"
  by code_simp

text \<open>
  C4, as stated, fails: a heading that follows one title block is the first text-bearing
  segment placed (one segment of the two is not a title block), yet the number printed
  in its gutter, and recorded in its heading coordinate, is 2.
\<close>

theorem gutter_count_counterexample:
  "generate_legal_document
     [TitleBlockSegment [''NOTICE''],
      TextSegment ''I. CLAIMS'' ''Helvetica-Bold'' 10 ''center'' True False] 36 [] []
   = Some (2,
       [\<lparr>page_no = 1, page_total = 2, content = [PlacedTitleBlock [''NOTICE'']]\<rparr>,
        \<lparr>page_no = 2, page_total = 2, content =
           [PlacedLine 2 (TextSegment ''I. CLAIMS'' ''Helvetica-Bold'' 10 ''center'' True False)]\<rparr>],
       [(''I. CLAIMS'', 2, 2, False)])
   \<and> count_list (map page_always_new
         [TitleBlockSegment [''NOTICE''],
          TextSegment ''I. CLAIMS'' ''Helvetica-Bold'' 10 ''center'' True False]) False = 1"
  by code_simp

section \<open>Headings and their classification\<close>

text \<open>
  C5, as stated, fails on its third line: \<^verbatim>\<open>1.2.3 Sub\<close> has no dot after its last
  number, so the heading pattern (every number of the prefix is followed by a dot)
  does not match it; the line is neither all capitals nor a bare number, and so it is
  body text of the section before it. The input has two sections, both \<^verbatim>\<open>section\<close>.
\<close>

theorem heading_line_without_dot_counterexample:
  "heading_pattern_match ''1.2.3 Sub'' = None
   \<and> parse_header_and_sections ''1. Intro\<newline>1.2. Damages\<newline>1.2.3 Sub''
       = ([(''content'', [])], [(''1 Intro'', []), (''1.2 Damages'', ''1.2.3 Sub'')])
   \<and> classify_headings
         (snd (parse_header_and_sections ''1. Intro\<newline>1.2. Damages\<newline>1.2.3 Sub''))
       = Inr [(''1 Intro'', ''section''), (''1.2 Damages'', ''section'')]"
  by code_simp

text \<open>
  C5, amended. The heading lines \<^verbatim>\<open>1. Intro\<close>, \<^verbatim>\<open>1.2. Damages\<close> and
  \<^verbatim>\<open>1.2.3. Sub\<close> give sections with the keys \<^verbatim>\<open>1 Intro\<close>, \<^verbatim>\<open>1.2 Damages\<close> and
  \<^verbatim>\<open>1.2.3 Sub\<close> (the trailing dot of the number is stripped), classified section,
  section and subsection: a number with more than one dot is a subsection.
\<close>

theorem heading_classification_boundary:
  "parse_header_and_sections ''1. Intro\<newline>1.2. Damages\<newline>1.2.3. Sub''
       = ([(''content'', [])], [(''1 Intro'', []), (''1.2 Damages'', []), (''1.2.3 Sub'', [])])
   \<and> classify_headings
         (snd (parse_header_and_sections ''1. Intro\<newline>1.2. Damages\<newline>1.2.3. Sub''))
       = Inr [(''1 Intro'', ''section''), (''1.2 Damages'', ''section''),
              (''1.2.3 Sub'', ''subsection'')]
   \<and> heading_pattern_match ''1.2. Damages'' = Some (''1.2.'', ''Damages'')
   \<and> classify_key ''1 Intro'' = Inr ''section''
   \<and> classify_key ''1.2 Damages'' = Inr ''section''
   \<and> classify_key ''1.2.3 Sub'' = Inr ''subsection''"
  by code_simp

section \<open>Exhibit renumbering\<close>

















end
